theory Spec2Isabelle
  imports Main "HOL-Library.Sublist"
begin

section \<open>Search filter (src/logtap/core/search.py)\<close>

text \<open>
  \<open>filter_lines\<close> uses three operations of the Python runtime: \<open>re.compile\<close>,
  \<open>Pattern.search\<close> and \<open>str.lower\<close>. They are not code of the repository, so the model
  takes them as the fields of a record. \<open>re.compile\<close> either returns a pattern or
  raises: \<open>re.error\<close> for a pattern that is not well formed, and exceptions of other
  classes too (\<open>OverflowError\<close> for a repetition count of 2^32 or more,
  \<open>RecursionError\<close> for groups nested too deeply). \<open>re_compile\<close> returns the exception
  on the left. The character type \<open>'c\<close> and the type \<open>'p\<close> of compiled patterns are
  left open.
\<close>

datatype re_flags = NOFLAG | IGNORECASE

datatype py_exception = Re_error | OverflowError | RecursionError

record ('c, 'p) pylib =
  re_compile :: "'c list \<Rightarrow> re_flags \<Rightarrow> py_exception + 'p"
  re_search :: "'p \<Rightarrow> 'c list \<Rightarrow> bool"
  str_lower :: "'c list \<Rightarrow> 'c list"

text \<open>Python's truth value of an \<open>Optional[str]\<close>: \<open>None\<close> and \<open>""\<close> are false.\<close>

fun truthy :: "'c list option \<Rightarrow> bool" where
  "truthy None = False"
| "truthy (Some s) = (s \<noteq> [])"

text \<open>Python's \<open>t in s\<close> on strings: \<open>t\<close> occurs in \<open>s\<close> as a contiguous block.\<close>

fun str_in :: "'c list \<Rightarrow> 'c list \<Rightarrow> bool" where
  "str_in t [] = (t = [])"
| "str_in t (c # cs) = (prefix t (c # cs) \<or> str_in t cs)"

text \<open>
  The body of \<open>filter_lines\<close>, branch by branch. The result is the returned list on
  the right, or the exception that leaves the function on the left: the handler
  \<open>except re.error\<close> turns \<open>re.error\<close> into the empty list and lets every other
  exception of \<open>re.compile\<close> through. The last \<open>return lines\<close> of the source is
  unreachable (one of \<open>term\<close>, \<open>regex\<close> is true after the first test) and is kept as
  the final \<open>else\<close>.
\<close>

definition filter_lines ::
  "('c, 'p) pylib \<Rightarrow> 'c list list \<Rightarrow> 'c list option \<Rightarrow> 'c list option \<Rightarrow> bool
     \<Rightarrow> py_exception + 'c list list"
where
  "filter_lines lib lines trm regex case_sensitive =
     (if \<not> truthy trm \<and> \<not> truthy regex then Inr lines
      else if truthy regex then
        (let flags = (if case_sensitive then NOFLAG else IGNORECASE)
         in case re_compile lib (the regex) flags of
              Inr pattern \<Rightarrow> Inr (filter (\<lambda>line. re_search lib pattern line) lines)
            | Inl e \<Rightarrow> (if e = Re_error then Inr [] else Inl e))
      else if truthy trm then
        (if case_sensitive then Inr (filter (\<lambda>line. str_in (the trm) line) lines)
         else Inr (filter (\<lambda>line. str_in (str_lower lib (the trm)) (str_lower lib line))
                     lines))
      else Inr lines)"

text \<open>
  A small instance of the runtime, used to evaluate the model on the inputs of
  tests/unit/test_search.py: patterns are literal text, a pattern with an unclosed
  \<open>[\<close> raises \<open>re.error\<close>, the pattern \<open>a{4294967296}\<close> raises \<open>OverflowError\<close> as it
  does in CPython, and lowering acts on the letters A to Z.
\<close>

definition lower_char :: "char \<Rightarrow> char" where
  "lower_char c =
     (case map_of (zip ''ABCDEFGHIJKLMNOPQRSTUVWXYZ'' ''abcdefghijklmnopqrstuvwxyz'') c of
        Some d \<Rightarrow> d
      | None \<Rightarrow> c)"

definition ascii_lower :: "string \<Rightarrow> string" where
  "ascii_lower s = map lower_char s"

definition literal_lib :: "(char, string \<times> re_flags) pylib" where
  "literal_lib =
     \<lparr> re_compile = (\<lambda>r fl.
         if r = ''a{4294967296}'' then Inl OverflowError
         else if CHR ''['' \<in> set r \<and> CHR '']'' \<notin> set r then Inl Re_error
         else Inr (r, fl)),
       re_search = (\<lambda>p line. case p of
                      (r, NOFLAG) \<Rightarrow> str_in r line
                    | (r, IGNORECASE) \<Rightarrow> str_in (ascii_lower r) (ascii_lower line)),
       str_lower = ascii_lower \<rparr>"

section \<open>Validation (logtap.core.validation)\<close>

text \<open>
  Modelled from the spec: the module logtap/core/validation.py is missing from the
  sources; its three predicates follow section 4.1 of the specification and the
  cases of tests/unit/test_validation.py.

  A path component is a maximal run of characters between path separators. The
  separators are the two characters the route handler tests for, \<open>/\<close> and the
  backslash; the path-root marker is \<open>/\<close>, as the handler's error message says.
\<close>

definition is_path_separator :: "char \<Rightarrow> bool" where
  "is_path_separator c = (c = CHR ''/'' \<or> c = CHR 0x5C)"

fun components_from :: "string \<Rightarrow> string \<Rightarrow> string list" where
  "components_from cur [] = [cur]"
| "components_from cur (c # cs) =
     (if is_path_separator c then cur # components_from [] cs
      else components_from (cur @ [c]) cs)"

definition path_components :: "string \<Rightarrow> string list" where
  "path_components name = components_from [] name"

definition is_filename_valid :: "string \<Rightarrow> bool" where
  "is_filename_valid name = (''..'' \<notin> set (path_components name) \<and> \<not> prefix ''/'' name)"

definition is_search_term_valid :: "string \<Rightarrow> bool" where
  "is_search_term_valid trm = (length trm \<le> 100)"

definition is_limit_valid :: "int \<Rightarrow> bool" where
  "is_limit_valid n = (1 \<le> n \<and> n \<le> 1000)"

section \<open>Tail reader (logtap.core.reader)\<close>

text \<open>
  Modelled from the spec: the module logtap/core/reader.py is missing from the sources;
  \<open>tail\<close> follows the four steps of section 4.2 of the specification. A file is the
  list of its characters. Opening and decoding failures are results of the storage
  layer (see \<open>read_error\<close> below), not of the scan.

  A logical line is a newline-terminated record; text after the last newline, when
  there is any, is a last line of its own. A final newline therefore ends the last
  line and opens no further one, and the empty file has no line.
\<close>

definition newline :: char where
  "newline = CHR 0x0A"

fun lines_from :: "string \<Rightarrow> string \<Rightarrow> string list" where
  "lines_from cur [] = (if cur = [] then [] else [cur])"
| "lines_from cur (c # cs) =
     (if c = newline then cur # lines_from [] cs else lines_from (cur @ [c]) cs)"

definition split_lines :: "string \<Rightarrow> string list" where
  "split_lines buf = lines_from [] buf"

definition take_last :: "nat \<Rightarrow> 'a list \<Rightarrow> 'a list" where
  "take_last n xs = drop (length xs - n) xs"

text \<open>
  Steps 2 and 3: starting at the end of the file, read blocks of at most \<open>chunk\<close>
  characters backwards, adding up the newlines seen, until \<open>need\<close> of them have been
  found or the start of the file is reached. \<open>pos\<close> is the offset where the
  accumulated buffer starts; the result is the final offset. A block size of 0
  would never advance; the scan stops there.
\<close>

function scan_back :: "nat \<Rightarrow> string \<Rightarrow> nat \<Rightarrow> nat \<Rightarrow> nat \<Rightarrow> nat" where
  "scan_back chunk f need pos found =
     (if pos = 0 \<or> need \<le> found \<or> chunk = 0 then pos
      else
        (let step = min chunk pos;
             pos' = pos - step;
             block = take step (drop pos' f)
         in scan_back chunk f need pos' (found + count_list block newline)))"
  by pat_completeness auto
termination
  by (relation "measure (\<lambda>(chunk, f, need, pos, found). pos)") auto

declare scan_back.simps [simp del]

text \<open>
  Steps 1 and 4: the scan starts at the size of the file and asks for \<open>limit + 1\<close>
  newlines; the buffer from the final offset on is split into lines and the last
  \<open>limit\<close> entries are returned.
\<close>

definition tail_chunked :: "nat \<Rightarrow> string \<Rightarrow> nat \<Rightarrow> string list" where
  "tail_chunked chunk f limit =
     (let size = length f;
          start = scan_back chunk f (limit + 1) size 0
      in take_last limit (split_lines (drop start f)))"

definition chunk_size :: nat where
  "chunk_size = 8192"

definition tail :: "string \<Rightarrow> nat \<Rightarrow> string list" where
  "tail f limit = tail_chunked chunk_size f limit"

text \<open>
  The files of tests/unit/test_reader.py are written as \<open>"\n".join(lines)\<close>: a newline
  between two lines, none after the last.
\<close>

fun join_lines :: "string list \<Rightarrow> string" where
  "join_lines [] = []"
| "join_lines [l] = l"
| "join_lines (l # l' # ls) = l @ newline # join_lines (l' # ls)"

section \<open>Log levels (logtap.core.parsers.base)\<close>

text \<open>
  Modelled from the spec: the module logtap/core/parsers/base.py is missing from the
  sources; \<open>LogLevel\<close> follows section 3 of the specification: eight levels with
  the syslog severities 0 to 7, and a constructor from text that accepts the
  numeric strings, the names in any letter case and the alias \<open>warn\<close>, and
  yields \<open>INFO\<close> for anything else.
\<close>

datatype LogLevel = EMERGENCY | ALERT | CRITICAL | ERROR | WARNING | NOTICE | INFO | DEBUG

fun severity :: "LogLevel \<Rightarrow> nat" where
  "severity EMERGENCY = 0"
| "severity ALERT = 1"
| "severity CRITICAL = 2"
| "severity ERROR = 3"
| "severity WARNING = 4"
| "severity NOTICE = 5"
| "severity INFO = 6"
| "severity DEBUG = 7"

definition level_numbers :: "(string \<times> LogLevel) list" where
  "level_numbers =
     [(''0'', EMERGENCY), (''1'', ALERT), (''2'', CRITICAL), (''3'', ERROR),
      (''4'', WARNING), (''5'', NOTICE), (''6'', INFO), (''7'', DEBUG)]"

definition level_names :: "(string \<times> LogLevel) list" where
  "level_names =
     [(''emergency'', EMERGENCY), (''alert'', ALERT), (''critical'', CRITICAL),
      (''error'', ERROR), (''warning'', WARNING), (''notice'', NOTICE),
      (''info'', INFO), (''debug'', DEBUG)]"

definition level_aliases :: "(string \<times> LogLevel) list" where
  "level_aliases = [(''warn'', WARNING)]"

definition from_string :: "string \<Rightarrow> LogLevel" where
  "from_string s =
     (case map_of level_numbers s of
        Some l \<Rightarrow> l
      | None \<Rightarrow>
          (case map_of (level_names @ level_aliases) (ascii_lower s) of
             Some l \<Rightarrow> l
           | None \<Rightarrow> INFO))"

section \<open>Format detector (logtap.core.parsers.auto)\<close>

text \<open>
  Modelled from the spec: the module logtap/core/parsers/auto.py and the concrete
  parsers are missing from the sources; \<open>detect_format\<close> follows section 4.5 of the
  specification. The parsers' \<open>can_parse\<close> checks are a parameter. Each parser's
  successes over the sample are counted; the leader is the parser with the most
  successes, the earlier one in the dispatch order on a tie; it is returned when its
  successes are more than half of a non-empty sample.
\<close>

datatype parser = Json | Syslog | Nginx | Apache

definition dispatch_order :: "parser list" where
  "dispatch_order = [Json, Syslog, Nginx, Apache]"

definition tally :: "(parser \<Rightarrow> string \<Rightarrow> bool) \<Rightarrow> string list \<Rightarrow> parser \<Rightarrow> nat" where
  "tally can_parse sample p = length (filter (can_parse p) sample)"

fun leader :: "(parser \<Rightarrow> nat) \<Rightarrow> parser \<Rightarrow> parser list \<Rightarrow> parser" where
  "leader score best [] = best"
| "leader score best (p # ps) = leader score (if score best < score p then p else best) ps"

definition detect_format :: "(parser \<Rightarrow> string \<Rightarrow> bool) \<Rightarrow> string list \<Rightarrow> parser option" where
  "detect_format can_parse sample =
     (if sample = [] then None
      else
        (let score = tally can_parse sample;
             best = leader score (hd dispatch_order) (tl dispatch_order)
         in if length sample < 2 * score best then Some best else None))"

text \<open>
  A stand-in for the parsers' checks, used to evaluate the detector: a line opening
  with a brace counts as JSON, one with a bracketed field as both access-log
  formats, one opening with a capital letter of a month name as syslog.
\<close>

fun sample_can_parse :: "parser \<Rightarrow> string \<Rightarrow> bool" where
  "sample_can_parse Json l = prefix ''{'' l"
| "sample_can_parse Syslog l = (l \<noteq> [] \<and> hd l \<in> set ''JFMASOND'')"
| "sample_can_parse Nginx l = (CHR ''['' \<in> set l \<and> \<not> prefix ''{'' l)"
| "sample_can_parse Apache l = (CHR ''['' \<in> set l \<and> \<not> prefix ''{'' l)"

section \<open>Log query endpoint (src/logtap/api/routes/logs.py)\<close>

text \<open>
  The handler \<open>get_logs\<close> either raises an \<open>HTTPException\<close> with a status code and a
  detail text, lets an exception of the reader or of \<open>filter_lines\<close> through, or
  returns a \<open>LogResponse\<close>.
  The settings, the path functions of the \<open>os\<close> module and \<open>tail_async\<close> (missing with
  the reader module) are the fields of an environment record; the reader's failures
  are the three of section 7 of the specification.
\<close>

datatype read_error = NotFound | PermissionDenied | DecodeError

datatype failure =
  HTTPException nat string | ReaderException read_error | FilterException py_exception

record LogResponse =
  lines :: "string list"
  count :: nat
  filename :: string

record env =
  get_log_directory :: string
  path_join :: "string \<Rightarrow> string \<Rightarrow> string"
  isfile :: "string \<Rightarrow> bool"
  tail_async :: "string \<Rightarrow> int \<Rightarrow> read_error + string list"

definition ERROR_INVALID_FILENAME :: string where
  \<open>ERROR_INVALID_FILENAME = ''Invalid filename: must not contain ".." or start with "/"''\<close>

definition ERROR_LONG_SEARCH_TERM :: string where
  "ERROR_LONG_SEARCH_TERM = ''Search term is too long: must be 100 characters or fewer''"

definition ERROR_INVALID_LIMIT :: string where
  "ERROR_INVALID_LIMIT = ''Invalid limit value: must be between 1 and 1000''"

definition HTTP_400_BAD_REQUEST :: nat where
  "HTTP_400_BAD_REQUEST = 400"

definition HTTP_404_NOT_FOUND :: nat where
  "HTTP_404_NOT_FOUND = 404"

text \<open>The filtering step of the handler: \<open>if regex: ... elif term: ...\<close>.\<close>

definition apply_filtering ::
  "(char, 'p) pylib \<Rightarrow> string list \<Rightarrow> string \<Rightarrow> string option \<Rightarrow> bool
     \<Rightarrow> py_exception + string list"
where
  "apply_filtering lib ls trm regex case_sensitive =
     (if truthy regex then filter_lines lib ls None regex case_sensitive
      else if trm \<noteq> [] then filter_lines lib ls (Some trm) None case_sensitive
      else Inr ls)"

definition get_logs ::
  "(char, 'p) pylib \<Rightarrow> env \<Rightarrow> string \<Rightarrow> string \<Rightarrow> string option \<Rightarrow> int \<Rightarrow> bool
     \<Rightarrow> failure + LogResponse"
where
  "get_logs lib settings fname trm regex limit case_sensitive =
     (if \<not> is_filename_valid fname then
        Inl (HTTPException HTTP_400_BAD_REQUEST ERROR_INVALID_FILENAME)
      else if CHR ''/'' \<in> set fname \<or> CHR 0x5C \<in> set fname then
        Inl (HTTPException HTTP_400_BAD_REQUEST ERROR_INVALID_FILENAME)
      else if trm \<noteq> [] \<and> \<not> is_search_term_valid trm then
        Inl (HTTPException HTTP_400_BAD_REQUEST ERROR_LONG_SEARCH_TERM)
      else if \<not> is_limit_valid limit then
        Inl (HTTPException HTTP_400_BAD_REQUEST ERROR_INVALID_LIMIT)
      else
        (let log_dir = get_log_directory settings;
             filepath = path_join settings log_dir fname
         in if \<not> isfile settings filepath then
              Inl (HTTPException HTTP_404_NOT_FOUND
                     (''File not found: '' @ filepath @ '' does not exist''))
            else
              (case tail_async settings filepath limit of
                 Inl e \<Rightarrow> Inl (ReaderException e)
               | Inr ls \<Rightarrow>
                   (case apply_filtering lib ls trm regex case_sensitive of
                      Inl e \<Rightarrow> Inl (FilterException e)
                    | Inr ls' \<Rightarrow>
                        Inr \<lparr> lines = ls', count = length ls', filename = fname \<rparr>))))"

text \<open>
  An environment over files held in memory, used to evaluate the handler: the log
  directory is \<open>/var/log\<close>, a path is a file when the table has it, and the reader is
  \<open>tail\<close> on the file's content.
\<close>

definition memory_env :: "(string \<times> string) list \<Rightarrow> env" where
  "memory_env files =
     \<lparr> get_log_directory = ''/var/log'',
       path_join = (\<lambda>a b. a @ ''/'' @ b),
       isfile = (\<lambda>p. map_of files p \<noteq> None),
       tail_async = (\<lambda>p n. case map_of files p of
                        None \<Rightarrow> Inl NotFound
                      | Some content \<Rightarrow> Inr (tail content (nat n))) \<rparr>"

section \<open>Properties of the search filter\<close>


text \<open>
  C2. Without a filter \<open>filter_lines\<close> is the identity: with neither \<open>term\<close> nor
  \<open>regex\<close> given, and with \<open>term\<close> the empty string and no \<open>regex\<close>, the input list
  comes back unchanged, whatever the case flag.
\<close>

theorem filter_lines_identity:
  "filter_lines lib ls None None cs = Inr ls \<and>
   filter_lines lib ls (Some []) None cs = Inr ls"
  by (simp add: filter_lines_def)

text \<open>
  C3. When a non-empty \<open>regex\<close> is given and compiles (with the flag that
  \<open>case_sensitive\<close> selects), the result is the input lines on which the pattern's
  \<open>search\<close> succeeds, in their order, and the \<open>term\<close> given with it has no effect.
\<close>

theorem filter_lines_regex:
  assumes "regex \<noteq> []"
    and "re_compile lib regex (if cs then NOFLAG else IGNORECASE) = Inr pattern"
  shows "filter_lines lib ls trm (Some regex) cs = Inr (filter (re_search lib pattern) ls) \<and>
         filter_lines lib ls trm (Some regex) cs = filter_lines lib ls None (Some regex) cs"
  using assms by (simp add: filter_lines_def)

theorem filter_lines_regex_witness:
  "filter_lines literal_lib [''error: failed'', ''no error: timeout'', ''warning: slow'']
     (Some ''warning'') (Some ''error:'') True
     = Inr [''error: failed'', ''no error: timeout''] \<and>
   filter_lines literal_lib [''error: failed'', ''no error: timeout'', ''warning: slow'']
     None (Some ''error:'') True = Inr [''error: failed'', ''no error: timeout'']"
proof -
  have ne: "''error:'' \<noteq> []" by simp
  have c: "re_compile literal_lib ''error:'' (if True then NOFLAG else IGNORECASE)
             = Inr (''error:'', NOFLAG)"
    by (simp add: literal_lib_def)
  have s: "filter (re_search literal_lib (''error:'', NOFLAG))
             [''error: failed'', ''no error: timeout'', ''warning: slow'']
           = [''error: failed'', ''no error: timeout'']"
    by (simp add: literal_lib_def)
  show ?thesis
    using filter_lines_regex [OF ne c, of "[''error: failed'', ''no error: timeout'', ''warning: slow'']" "Some ''warning''"]
    unfolding s by metis
qed

text \<open>
  C4. What \<open>filter_lines\<close> does when \<open>re.compile\<close> raises on a non-empty \<open>regex\<close>:
  \<open>re.error\<close> is caught and the result is the empty list, for every input list and
  every \<open>term\<close>; an exception of any other class is not caught and leaves
  \<open>filter_lines\<close>, and then the handler \<open>get_logs\<close> as well. So a regex that fails to
  compile with \<open>OverflowError\<close> or \<open>RecursionError\<close> does not give the empty list.
\<close>

theorem filter_lines_compile_failure:
  assumes "regex \<noteq> []"
    and "re_compile lib regex (if cs then NOFLAG else IGNORECASE) = Inl e"
  shows "filter_lines lib ls trm (Some regex) cs = (if e = Re_error then Inr [] else Inl e)"
  using assms by (simp add: filter_lines_def)

theorem filter_lines_compile_failure_witness:
  "filter_lines literal_lib [''line 1'', ''line 2''] None (Some ''[invalid'') True = Inr [] \<and>
   filter_lines literal_lib [''line 1'', ''line 2''] None (Some ''a{4294967296}'') True
     = Inl OverflowError"
proof -
  have ne: "''[invalid'' \<noteq> []" "''a{4294967296}'' \<noteq> []" by simp_all
  have c: "re_compile literal_lib ''[invalid'' (if True then NOFLAG else IGNORECASE)
             = Inl Re_error"
    by (simp add: literal_lib_def)
  have d: "re_compile literal_lib ''a{4294967296}'' (if True then NOFLAG else IGNORECASE)
             = Inl OverflowError"
    by (simp add: literal_lib_def)
  from filter_lines_compile_failure [OF ne(1) c] filter_lines_compile_failure [OF ne(2) d]
  show ?thesis by simp
qed





section \<open>Properties of the tail reader\<close>

lemma lines_from_nl:
  "newline \<notin> set a \<Longrightarrow> lines_from cur (a @ newline # b) = (cur @ a) # lines_from [] b"
  by (induction a arbitrary: cur) auto

lemma lines_from_no_nl:
  "newline \<notin> set a \<Longrightarrow> lines_from cur a = (if cur @ a = [] then [] else [cur @ a])"
  by (induction a arbitrary: cur) auto

lemma lines_from_append: "\<exists>l cur'. lines_from cur (p @ s) = l @ lines_from cur' s"
proof (induction p arbitrary: cur)
  case Nil
  have "lines_from cur ([] @ s) = [] @ lines_from cur s" by simp
  then show ?case by blast
next
  case (Cons c p)
  show ?case
  proof (cases "c = newline")
    case True
    from Cons.IH [of "[]"] obtain l cur' where "lines_from [] (p @ s) = l @ lines_from cur' s"
      by blast
    with True have "lines_from cur ((c # p) @ s) = (cur # l) @ lines_from cur' s" by simp
    then show ?thesis by blast
  next
    case False
    from Cons.IH [of "cur @ [c]"] obtain l cur'
      where "lines_from (cur @ [c]) (p @ s) = l @ lines_from cur' s" by blast
    with False have "lines_from cur ((c # p) @ s) = l @ lines_from cur' s" by simp
    then show ?thesis by blast
  qed
qed

lemma lines_from_rest:
  assumes "newline \<in> set s"
  shows "\<exists>h h' r. lines_from cur s = h # r \<and> lines_from [] s = h' # r"
proof -
  from assms obtain a b where s: "s = a @ newline # b" and a: "newline \<notin> set a"
    by (auto dest: split_list_first)
  from a have "lines_from cur s = (cur @ a) # lines_from [] b"
    unfolding s by (rule lines_from_nl)
  moreover from a have "lines_from [] s = ([] @ a) # lines_from [] b"
    unfolding s by (rule lines_from_nl)
  ultimately show ?thesis by blast
qed

lemma count_le_length_lines: "count_list s newline \<le> length (lines_from cur s)"
  by (induction s arbitrary: cur) auto

lemma take_last_append:
  "n \<le> length r \<Longrightarrow> take_last n (l @ r) = take_last n r"
  by (simp add: take_last_def)

lemma take_last_suffix_buffer:
  assumes "limit + 1 \<le> count_list s newline"
  shows "take_last limit (split_lines (p @ s)) = take_last limit (split_lines s)"
proof -
  from assms have "0 < count_list s newline" by simp
  then have nl: "newline \<in> set s"
    by (cases "newline \<in> set s") (simp_all add: count_list_0_iff)
  obtain l cur' where whole: "lines_from [] (p @ s) = l @ lines_from cur' s"
    using lines_from_append by blast
  from lines_from_rest [OF nl, of cur'] obtain h h' r
    where h: "lines_from cur' s = h # r" and h': "lines_from [] s = h' # r" by blast
  have "count_list s newline \<le> length (lines_from [] s)" by (rule count_le_length_lines)
  with assms h' have len: "limit \<le> length r" by simp
  have "take_last limit (lines_from [] (p @ s)) = take_last limit ((l @ [h]) @ r)"
    by (simp add: whole h)
  also from len have "\<dots> = take_last limit r" by (rule take_last_append)
  also from len have "\<dots> = take_last limit ([h'] @ r)" by (rule take_last_append [symmetric])
  finally show ?thesis by (simp add: split_lines_def h')
qed

lemma scan_back_stops:
  assumes "0 < chunk" and "pos \<le> length f" and "found = count_list (drop pos f) newline"
  shows "scan_back chunk f need pos found = 0 \<or>
         need \<le> count_list (drop (scan_back chunk f need pos found) f) newline"
  using assms
proof (induction chunk f need pos found rule: scan_back.induct)
  case (1 chunk f need pos found)
  show ?case
  proof (cases "pos = 0 \<or> need \<le> found \<or> chunk = 0")
    case True
    with "1.prems" show ?thesis by (auto simp: scan_back.simps)
  next
    case False
    define step where "step = min chunk pos"
    define pos' where "pos' = pos - step"
    define block where "block = take step (drop pos' f)"
    have le: "pos' \<le> length f" using "1.prems" by (simp add: pos'_def)
    have "step \<le> pos" by (simp add: step_def)
    then have "drop pos' f = block @ drop pos f"
      unfolding block_def pos'_def
      by (metis add_diff_inverse_nat append_take_drop_id drop_drop less_le_not_le)
    then have cnt: "found + count_list block newline = count_list (drop pos' f) newline"
      using "1.prems" by simp
    have unfold: "scan_back chunk f need pos found =
                  scan_back chunk f need pos' (found + count_list block newline)"
      using False by (subst scan_back.simps) (simp add: step_def pos'_def block_def Let_def)
    from "1.IH" [OF False step_def pos'_def block_def "1.prems"(1) le cnt]
    show ?thesis unfolding unfold .
  qed
qed

theorem tail_chunked_correct:
  assumes "0 < chunk"
  shows "tail_chunked chunk f limit = take_last limit (split_lines f)"
proof -
  define start where "start = scan_back chunk f (limit + 1) (length f) 0"
  have "start = 0 \<or> limit + 1 \<le> count_list (drop start f) newline"
    unfolding start_def using assms by (rule scan_back_stops) simp_all
  then have "take_last limit (split_lines (drop start f)) = take_last limit (split_lines f)"
  proof
    assume "start = 0"
    then show ?thesis by simp
  next
    assume "limit + 1 \<le> count_list (drop start f) newline"
    then have "take_last limit (split_lines (take start f @ drop start f)) =
               take_last limit (split_lines (drop start f))"
      by (rule take_last_suffix_buffer)
    then show ?thesis by simp
  qed
  then show ?thesis by (simp add: tail_chunked_def start_def Let_def)
qed

lemma split_join_lines:
  assumes "\<forall>l \<in> set ls. newline \<notin> set l" and "ls \<noteq> [] \<longrightarrow> last ls \<noteq> []"
  shows "split_lines (join_lines ls) = ls"
  using assms unfolding split_lines_def
proof (induction ls rule: join_lines.induct)
  case 1
  then show ?case by simp
next
  case (2 l)
  then show ?case by (simp add: lines_from_no_nl)
next
  case (3 l l' ls)
  then have "lines_from [] (join_lines (l' # ls)) = l' # ls" by simp
  moreover from "3.prems" have "newline \<notin> set l" by simp
  ultimately show ?case by (simp add: lines_from_nl)
qed

lemma last_line_nonempty:
  "s \<noteq> [] \<Longrightarrow> last s \<noteq> newline \<Longrightarrow> lines_from cur s \<noteq> [] \<and> last (lines_from cur s) \<noteq> []"
proof (induction s arbitrary: cur)
  case Nil
  then show ?case by simp
next
  case (Cons c cs)
  show ?case
  proof (cases "cs = []")
    case True
    with Cons.prems show ?thesis by simp
  next
    case False
    with Cons.prems have "last cs \<noteq> newline" by simp
    with False Cons.IH have "\<And>cur'. lines_from cur' cs \<noteq> [] \<and> last (lines_from cur' cs) \<noteq> []"
      by blast
    then show ?thesis by simp
  qed
qed

lemma take_last_all: "length xs \<le> n \<Longrightarrow> take_last n xs = xs"
  by (simp add: take_last_def)

lemma take_last_length: "n \<le> length xs \<Longrightarrow> length (take_last n xs) = n"
  by (simp add: take_last_def)

lemma take_last_is_suffix: "xs = take (length xs - n) xs @ take_last n xs"
  by (simp add: take_last_def)

lemma take_last_last:
  assumes "0 < n" and "xs \<noteq> []"
  shows "take_last n xs \<noteq> [] \<and> last (take_last n xs) = last xs"
proof -
  from assms have "length xs - n < length xs" by (cases xs) auto
  then show ?thesis by (simp add: take_last_def)
qed

text \<open>
  C1. For every file and every limit (in particular every limit from 1 to 1000),
  \<open>tail\<close> returns the last \<open>limit\<close> logical lines of the file in file order: all of
  them when the file has at most \<open>limit\<close> lines, the final \<open>limit\<close> ones otherwise,
  none for the empty file; when the file does not end with a newline the last
  returned line is the text after the last newline and no empty line follows it. On
  a file written as lines joined by newlines, \<open>tail\<close> returns the last \<open>limit\<close> of
  those lines.
\<close>

theorem tail_last_lines:
  "tail f limit = take_last limit (split_lines f) \<and>
   (length (split_lines f) \<le> limit \<longrightarrow> tail f limit = split_lines f) \<and>
   (limit < length (split_lines f) \<longrightarrow>
      length (tail f limit) = limit \<and> (\<exists>front. split_lines f = front @ tail f limit)) \<and>
   tail [] limit = [] \<and>
   (f \<noteq> [] \<and> last f \<noteq> newline \<and> 0 < limit \<longrightarrow>
      tail f limit \<noteq> [] \<and> last (tail f limit) \<noteq> []) \<and>
   (\<forall>ls. (\<forall>l \<in> set ls. newline \<notin> set l) \<and> (ls \<noteq> [] \<longrightarrow> last ls \<noteq> []) \<longrightarrow>
      tail (join_lines ls) limit = take_last limit ls)"
proof -
  have eq: "\<And>g. tail g limit = take_last limit (split_lines g)"
    unfolding tail_def by (rule tail_chunked_correct) (simp add: chunk_size_def)
  have few: "length (split_lines f) \<le> limit \<longrightarrow> tail f limit = split_lines f"
    by (simp add: eq take_last_all)
  have many: "limit < length (split_lines f) \<longrightarrow>
      length (tail f limit) = limit \<and> (\<exists>front. split_lines f = front @ tail f limit)"
  proof
    assume "limit < length (split_lines f)"
    then have "length (tail f limit) = limit" by (simp add: eq take_last_length)
    moreover have "split_lines f = take (length (split_lines f) - limit) (split_lines f) @ tail f limit"
      unfolding eq by (rule take_last_is_suffix)
    ultimately show "length (tail f limit) = limit \<and> (\<exists>front. split_lines f = front @ tail f limit)"
      by blast
  qed
  have empty: "tail [] limit = []"
    by (simp add: eq split_lines_def take_last_def)
  have no_synth: "f \<noteq> [] \<and> last f \<noteq> newline \<and> 0 < limit \<longrightarrow>
      tail f limit \<noteq> [] \<and> last (tail f limit) \<noteq> []"
  proof
    assume a: "f \<noteq> [] \<and> last f \<noteq> newline \<and> 0 < limit"
    then have "split_lines f \<noteq> [] \<and> last (split_lines f) \<noteq> []"
      unfolding split_lines_def by (simp add: last_line_nonempty)
    with a show "tail f limit \<noteq> [] \<and> last (tail f limit) \<noteq> []"
      by (simp add: eq take_last_last)
  qed
  have joined: "\<forall>ls. (\<forall>l \<in> set ls. newline \<notin> set l) \<and> (ls \<noteq> [] \<longrightarrow> last ls \<noteq> []) \<longrightarrow>
      tail (join_lines ls) limit = take_last limit ls"
    by (simp add: eq split_join_lines)
  from eq few many empty no_synth joined show ?thesis by blast
qed

theorem tail_last_lines_witness:
  "tail (join_lines [''log 0'', ''log 1'', ''log 2'', ''log 3'', ''log 4'', ''log 5'']) 3
     = [''log 3'', ''log 4'', ''log 5''] \<and>
   tail (join_lines [''line 1'', '''', ''line 3'']) 3 = [''line 1'', '''', ''line 3''] \<and>
   tail ''line 1\<newline>line 2'' 5 = [''line 1'', ''line 2''] \<and>
   tail '''' 10 = []"
proof -
  let ?six = "[''log 0'', ''log 1'', ''log 2'', ''log 3'', ''log 4'', ''log 5'']"
  let ?three = "[''line 1'', '''', ''line 3'']"
  have six: "(\<forall>l \<in> set ?six. newline \<notin> set l) \<and> (?six \<noteq> [] \<longrightarrow> last ?six \<noteq> [])"
    by (simp add: newline_def)
  have three: "(\<forall>l \<in> set ?three. newline \<notin> set l) \<and> (?three \<noteq> [] \<longrightarrow> last ?three \<noteq> [])"
    by (simp add: newline_def)
  have two: "length (split_lines ''line 1\<newline>line 2'') \<le> 5"
    by (simp add: split_lines_def newline_def)
  from tail_last_lines [of "join_lines ?six" 3] six
  have a: "tail (join_lines ?six) 3 = take_last 3 ?six" by blast
  from tail_last_lines [of "join_lines ?three" 3] three
  have b: "tail (join_lines ?three) 3 = take_last 3 ?three" by blast
  from tail_last_lines [of "''line 1\<newline>line 2''" 5] two
  have c: "tail ''line 1\<newline>line 2'' 5 = split_lines ''line 1\<newline>line 2''" by blast
  from tail_last_lines [of "[]" 10]
  have d: "tail [] 10 = []" by blast
  from a b c d show ?thesis
    by (simp add: take_last_def split_lines_def newline_def)
qed

section \<open>Properties of the log levels\<close>

lemma digits_not_lowered:
  "map_of level_numbers s = Some l \<Longrightarrow> ascii_lower s = s"
  by (auto simp: level_numbers_def ascii_lower_def lower_char_def split: if_splits)

lemma from_string_name:
  assumes "map_of (level_names @ level_aliases) k = Some l" and "ascii_lower s = k"
  shows "from_string s = l"
proof (cases "map_of level_numbers s")
  case None
  with assms show ?thesis by (simp add: from_string_def)
next
  case (Some l')
  then have "ascii_lower s = s" by (rule digits_not_lowered)
  with assms(2) have "s = k" by simp
  with Some have "map_of level_numbers k \<noteq> None" by simp
  moreover from assms(1) have "map_of level_numbers k = None"
    by (auto simp: level_numbers_def level_names_def level_aliases_def split: if_splits)
  ultimately show ?thesis by simp
qed

text \<open>
  C6. \<open>from_string\<close> maps the strings \<open>"0"\<close> to \<open>"7"\<close> to the eight levels in the order
  of their severities, maps every spelling of a level name (in any letter case) to
  that level and every spelling of \<open>warn\<close> to \<open>WARNING\<close>, and yields \<open>INFO\<close> for
  every other input; the severities increase strictly from \<open>EMERGENCY\<close> to \<open>DEBUG\<close>.
\<close>

theorem from_string_levels:
  "from_string ''0'' = EMERGENCY \<and> from_string ''1'' = ALERT \<and>
   from_string ''2'' = CRITICAL \<and> from_string ''3'' = ERROR \<and>
   from_string ''4'' = WARNING \<and> from_string ''5'' = NOTICE \<and>
   from_string ''6'' = INFO \<and> from_string ''7'' = DEBUG \<and>
   (\<forall>s. ascii_lower s = ''emergency'' \<longrightarrow> from_string s = EMERGENCY) \<and>
   (\<forall>s. ascii_lower s = ''alert'' \<longrightarrow> from_string s = ALERT) \<and>
   (\<forall>s. ascii_lower s = ''critical'' \<longrightarrow> from_string s = CRITICAL) \<and>
   (\<forall>s. ascii_lower s = ''error'' \<longrightarrow> from_string s = ERROR) \<and>
   (\<forall>s. ascii_lower s = ''warning'' \<longrightarrow> from_string s = WARNING) \<and>
   (\<forall>s. ascii_lower s = ''notice'' \<longrightarrow> from_string s = NOTICE) \<and>
   (\<forall>s. ascii_lower s = ''info'' \<longrightarrow> from_string s = INFO) \<and>
   (\<forall>s. ascii_lower s = ''debug'' \<longrightarrow> from_string s = DEBUG) \<and>
   (\<forall>s. ascii_lower s = ''warn'' \<longrightarrow> from_string s = WARNING) \<and>
   (\<forall>s. s \<notin> set (map fst level_numbers) \<and>
        ascii_lower s \<notin> set (map fst (level_names @ level_aliases)) \<longrightarrow>
        from_string s = INFO) \<and>
   severity EMERGENCY < severity ALERT \<and> severity ALERT < severity CRITICAL \<and>
   severity CRITICAL < severity ERROR \<and> severity ERROR < severity WARNING \<and>
   severity WARNING < severity NOTICE \<and> severity NOTICE < severity INFO \<and>
   severity INFO < severity DEBUG \<and>
   severity (from_string ''0'') = 0 \<and> severity (from_string ''7'') = 7 \<and>
   (\<forall>l. severity l \<le> 7)"
proof -
  have num: "from_string ''0'' = EMERGENCY \<and> from_string ''1'' = ALERT \<and>
   from_string ''2'' = CRITICAL \<and> from_string ''3'' = ERROR \<and>
   from_string ''4'' = WARNING \<and> from_string ''5'' = NOTICE \<and>
   from_string ''6'' = INFO \<and> from_string ''7'' = DEBUG"
    by (simp add: from_string_def level_numbers_def)
  have tab: "\<And>k l s. map_of (level_names @ level_aliases) k = Some l \<Longrightarrow>
                 ascii_lower s = k \<Longrightarrow> from_string s = l"
    by (rule from_string_name)
  have names: "(\<forall>s. ascii_lower s = ''emergency'' \<longrightarrow> from_string s = EMERGENCY) \<and>
   (\<forall>s. ascii_lower s = ''alert'' \<longrightarrow> from_string s = ALERT) \<and>
   (\<forall>s. ascii_lower s = ''critical'' \<longrightarrow> from_string s = CRITICAL) \<and>
   (\<forall>s. ascii_lower s = ''error'' \<longrightarrow> from_string s = ERROR) \<and>
   (\<forall>s. ascii_lower s = ''warning'' \<longrightarrow> from_string s = WARNING) \<and>
   (\<forall>s. ascii_lower s = ''notice'' \<longrightarrow> from_string s = NOTICE) \<and>
   (\<forall>s. ascii_lower s = ''info'' \<longrightarrow> from_string s = INFO) \<and>
   (\<forall>s. ascii_lower s = ''debug'' \<longrightarrow> from_string s = DEBUG) \<and>
   (\<forall>s. ascii_lower s = ''warn'' \<longrightarrow> from_string s = WARNING)"
    by (intro conjI allI impI; rule tab; simp add: level_names_def level_aliases_def)
  have other: "\<forall>s. s \<notin> set (map fst level_numbers) \<and>
        ascii_lower s \<notin> set (map fst (level_names @ level_aliases)) \<longrightarrow>
        from_string s = INFO"
  proof (intro allI impI)
    fix s
    assume "s \<notin> set (map fst level_numbers) \<and>
            ascii_lower s \<notin> set (map fst (level_names @ level_aliases))"
    then have "map_of level_numbers s = None"
      and "map_of (level_names @ level_aliases) (ascii_lower s) = None"
      by (simp_all only: map_of_eq_None_iff set_map not_False_eq_True)
    then show "from_string s = INFO" by (simp only: from_string_def option.case)
  qed
  have sev: "severity EMERGENCY < severity ALERT \<and> severity ALERT < severity CRITICAL \<and>
   severity CRITICAL < severity ERROR \<and> severity ERROR < severity WARNING \<and>
   severity WARNING < severity NOTICE \<and> severity NOTICE < severity INFO \<and>
   severity INFO < severity DEBUG"
    by simp
  from num have ends: "severity (from_string ''0'') = 0 \<and> severity (from_string ''7'') = 7"
    by simp
  have range: "\<forall>l. severity l \<le> 7"
  proof
    fix l show "severity l \<le> 7" by (cases l) simp_all
  qed
  from num names other sev ends range show ?thesis by blast
qed

theorem from_string_levels_witness:
  "from_string ''ERROR'' = ERROR \<and> from_string ''error'' = ERROR \<and>
   from_string ''Warn'' = WARNING \<and> from_string ''verbose'' = INFO \<and>
   from_string ''3'' = ERROR"
proof -
  have a: "ascii_lower ''ERROR'' = ''error''" "ascii_lower ''error'' = ''error''"
    "ascii_lower ''Warn'' = ''warn''"
    by (simp_all add: ascii_lower_def lower_char_def)
  have b: "''verbose'' \<notin> set (map fst level_numbers) \<and>
           ascii_lower ''verbose'' \<notin> set (map fst (level_names @ level_aliases))"
    by (simp add: level_numbers_def level_names_def level_aliases_def ascii_lower_def
        lower_char_def)
  from from_string_levels a b show ?thesis by blast
qed

section \<open>Properties of the format detector\<close>

lemma leader_ge_start: "score b \<le> score (leader score b ps)"
proof (induction ps arbitrary: b)
  case Nil
  show ?case by simp
next
  case (Cons p ps)
  have "score b \<le> score (if score b < score p then p else b)" by simp
  also have "\<dots> \<le> score (leader score (if score b < score p then p else b) ps)"
    by (rule Cons.IH)
  finally show ?case by simp
qed

lemma leader_max: "q \<in> set (b # ps) \<Longrightarrow> score q \<le> score (leader score b ps)"
proof (induction ps arbitrary: b)
  case Nil
  then show ?case by simp
next
  case (Cons p ps)
  let ?b' = "if score b < score p then p else b"
  from Cons.prems consider "q = b" | "q = p" | "q \<in> set ps" by auto
  then have "q \<in> set (?b' # ps) \<or> score q \<le> score ?b'" by cases auto
  then show ?case
  proof
    assume "q \<in> set (?b' # ps)"
    from Cons.IH [OF this] show ?thesis by simp
  next
    assume "score q \<le> score ?b'"
    also have "\<dots> \<le> score (leader score ?b' ps)" by (rule leader_ge_start)
    finally show ?thesis by simp
  qed
qed

lemma all_parsers: "q \<in> set dispatch_order"
  by (cases q) (simp_all add: dispatch_order_def)

lemma best_is_max:
  "score q \<le> score (leader score (hd dispatch_order) (tl dispatch_order))"
proof -
  have "q \<in> set (hd dispatch_order # tl dispatch_order)"
    using all_parsers [of q] by (simp add: dispatch_order_def)
  then show ?thesis by (rule leader_max)
qed

lemma best_is_first:
  assumes "q \<in> set (takeWhile (\<lambda>r. r \<noteq> leader score (hd dispatch_order) (tl dispatch_order))
                       dispatch_order)"
  shows "score q < score (leader score (hd dispatch_order) (tl dispatch_order))"
  using assms by (auto simp: dispatch_order_def split: if_splits)

lemma tally_le: "tally cp sample p \<le> length sample"
  by (simp add: tally_def)

lemma tally_all: "\<forall>l \<in> set sample. cp p l \<Longrightarrow> tally cp sample p = length sample"
  by (simp add: tally_def)

text \<open>
  C7. \<open>detect_format\<close> returns no parser for the empty sample and when no parser
  succeeds on more than half of the sample, and returns a parser as soon as one does.
  The parser returned has such a majority, no parser has more successes, and every
  parser before it in the dispatch order Json, Syslog, Nginx, Apache has fewer. A
  non-empty sample on which the Json check succeeds on every line yields Json.
\<close>

theorem detect_format_majority:
  "detect_format cp [] = None \<and>
   ((\<forall>p. \<not> length sample < 2 * tally cp sample p) \<longrightarrow> detect_format cp sample = None) \<and>
   ((\<exists>p. length sample < 2 * tally cp sample p) \<longrightarrow> detect_format cp sample \<noteq> None) \<and>
   (\<forall>p. detect_format cp sample = Some p \<longrightarrow>
      sample \<noteq> [] \<and> length sample < 2 * tally cp sample p \<and>
      (\<forall>q. tally cp sample q \<le> tally cp sample p) \<and>
      (\<forall>q \<in> set (takeWhile (\<lambda>r. r \<noteq> p) dispatch_order).
         tally cp sample q < tally cp sample p)) \<and>
   (sample \<noteq> [] \<and> (\<forall>l \<in> set sample. cp Json l) \<longrightarrow> detect_format cp sample = Some Json)"
proof -
  define score where "score = tally cp sample"
  define best where "best = leader score (hd dispatch_order) (tl dispatch_order)"
  have df: "detect_format cp sample =
            (if sample = [] then None
             else if length sample < 2 * score best then Some best else None)"
    by (simp add: detect_format_def Let_def score_def best_def)
  have mx: "\<And>q. score q \<le> score best"
    unfolding best_def by (rule best_is_max)
  have fst: "\<And>q. q \<in> set (takeWhile (\<lambda>r. r \<noteq> best) dispatch_order) \<Longrightarrow> score q < score best"
    unfolding best_def by (rule best_is_first)
  have a: "detect_format cp [] = None" by (simp add: detect_format_def)
  have b: "(\<forall>p. \<not> length sample < 2 * tally cp sample p) \<longrightarrow> detect_format cp sample = None"
    by (simp add: df score_def)
  have c: "(\<exists>p. length sample < 2 * tally cp sample p) \<longrightarrow> detect_format cp sample \<noteq> None"
  proof
    assume "\<exists>p. length sample < 2 * tally cp sample p"
    then obtain p where p: "length sample < 2 * score p" by (auto simp: score_def)
    with mx [of p] have "length sample < 2 * score best" by simp
    moreover from p have "sample \<noteq> []" by (auto simp: score_def tally_def)
    ultimately show "detect_format cp sample \<noteq> None" by (simp add: df)
  qed
  have d: "\<forall>p. detect_format cp sample = Some p \<longrightarrow>
      sample \<noteq> [] \<and> length sample < 2 * tally cp sample p \<and>
      (\<forall>q. tally cp sample q \<le> tally cp sample p) \<and>
      (\<forall>q \<in> set (takeWhile (\<lambda>r. r \<noteq> p) dispatch_order).
         tally cp sample q < tally cp sample p)"
  proof (intro allI impI)
    fix p
    assume "detect_format cp sample = Some p"
    then have "sample \<noteq> []" and "length sample < 2 * score best" and "p = best"
      by (auto simp: df split: if_splits)
    with mx fst show "sample \<noteq> [] \<and> length sample < 2 * tally cp sample p \<and>
      (\<forall>q. tally cp sample q \<le> tally cp sample p) \<and>
      (\<forall>q \<in> set (takeWhile (\<lambda>r. r \<noteq> p) dispatch_order).
         tally cp sample q < tally cp sample p)"
      by (simp add: score_def)
  qed
  have e: "sample \<noteq> [] \<and> (\<forall>l \<in> set sample. cp Json l) \<longrightarrow> detect_format cp sample = Some Json"
  proof
    assume h: "sample \<noteq> [] \<and> (\<forall>l \<in> set sample. cp Json l)"
    then have full: "score Json = length sample" by (simp add: score_def tally_all)
    have "score best \<le> length sample" by (simp add: score_def tally_le)
    with mx [of Json] full have top: "score best = length sample" by simp
    have "best = Json"
    proof (rule ccontr)
      assume "best \<noteq> Json"
      then have "Json \<in> set (takeWhile (\<lambda>r. r \<noteq> best) dispatch_order)"
        by (simp add: dispatch_order_def)
      from fst [OF this] full top show False by simp
    qed
    with h top show "detect_format cp sample = Some Json" by (simp add: df)
  qed
  from a b c d e show ?thesis by blast
qed

theorem detect_format_majority_witness:
  "detect_format sample_can_parse [''{\"msg\": \"line 1\"}'', ''{\"msg\": \"line 2\"}''] = Some Json \<and>
   detect_format sample_can_parse [''1.1.1.1 - - [08/Jan/2024] x'', ''2.2.2.2 - - [08/Jan/2024] y'']
     = Some Nginx \<and>
   detect_format sample_can_parse [''{a}'', ''Jan  8 10:23:45 host p: m''] = None \<and>
   detect_format sample_can_parse [] = None"
proof -
  let ?js = "[''{\"msg\": \"line 1\"}'', ''{\"msg\": \"line 2\"}'']"
  let ?mixed = "[''{a}'', ''Jan  8 10:23:45 host p: m'']"
  have js: "?js \<noteq> [] \<and> (\<forall>l \<in> set ?js. sample_can_parse Json l)" by simp
  have mixed: "\<forall>p. \<not> length ?mixed < 2 * tally sample_can_parse ?mixed p"
  proof
    fix p show "\<not> length ?mixed < 2 * tally sample_can_parse ?mixed p"
      by (cases p) (simp_all add: tally_def)
  qed
  have web: "detect_format sample_can_parse
      [''1.1.1.1 - - [08/Jan/2024] x'', ''2.2.2.2 - - [08/Jan/2024] y''] = Some Nginx"
    by (simp add: detect_format_def dispatch_order_def tally_def Let_def)
  from detect_format_majority [of sample_can_parse ?js] js
  have a: "detect_format sample_can_parse ?js = Some Json" by blast
  from detect_format_majority [of sample_can_parse ?mixed] mixed
  have b: "detect_format sample_can_parse ?mixed = None" by blast
  from detect_format_majority [of sample_can_parse]
  have c: "detect_format sample_can_parse [] = None" by blast
  from a b c web show ?thesis by blast
qed

section \<open>Properties of the validation and the endpoint\<close>

lemma components_sepfree:
  "\<forall>c \<in> set a. \<not> is_path_separator c \<Longrightarrow> components_from cur a = [cur @ a]"
  by (induction a arbitrary: cur) auto

lemma components_append:
  "is_path_separator c \<Longrightarrow>
   components_from cur (a @ c # b) = components_from cur a @ components_from [] b"
  by (induction a arbitrary: cur) auto

lemma component_between:
  assumes "\<forall>c \<in> set x. \<not> is_path_separator c"
    and "pre = [] \<or> is_path_separator (last pre)"
    and "post = [] \<or> is_path_separator (hd post)"
  shows "x \<in> set (components_from [] (pre @ x @ post))"
proof -
  have mid: "x \<in> set (components_from [] (x @ post))"
  proof (cases post)
    case Nil
    with assms(1) show ?thesis by (simp add: components_sepfree)
  next
    case (Cons s post')
    with assms(3) have "is_path_separator s" by simp
    then have "components_from [] (x @ s # post') = components_from [] x @ components_from [] post'"
      by (rule components_append)
    with assms(1) Cons show ?thesis by (simp add: components_sepfree)
  qed
  show ?thesis
  proof (cases pre rule: rev_cases)
    case Nil
    with mid show ?thesis by simp
  next
    case (snoc pre' s)
    with assms(2) have "is_path_separator s" by simp
    then have "components_from [] (pre' @ s # (x @ post)) =
               components_from [] pre' @ components_from [] (x @ post)"
      by (rule components_append)
    with mid snoc show ?thesis by simp
  qed
qed

lemma component_occurs:
  "x \<in> set (components_from cur s) \<Longrightarrow>
   \<exists>pre post. cur @ s = pre @ x @ post \<and>
     (pre = [] \<or> is_path_separator (last pre)) \<and> (post = [] \<or> is_path_separator (hd post))"
proof (induction s arbitrary: cur)
  case Nil
  then have "cur @ [] = [] @ x @ []" by simp
  then show ?case by blast
next
  case (Cons c cs)
  show ?case
  proof (cases "is_path_separator c")
    case False
    with Cons.prems have "x \<in> set (components_from (cur @ [c]) cs)" by simp
    from Cons.IH [OF this] show ?thesis by simp
  next
    case True
    with Cons.prems consider "x = cur" | "x \<in> set (components_from [] cs)" by auto
    then show ?thesis
    proof cases
      case 1
      with True have "cur @ c # cs = [] @ x @ (c # cs) \<and> is_path_separator (hd (c # cs))" by simp
      then show ?thesis by blast
    next
      case 2
      from Cons.IH [OF this] obtain pre post where d: "cs = pre @ x @ post"
        and pre: "pre = [] \<or> is_path_separator (last pre)"
        and post: "post = [] \<or> is_path_separator (hd post)" by auto
      from d have "cur @ c # cs = (cur @ c # pre) @ x @ post" by simp
      moreover from True pre have "is_path_separator (last (cur @ c # pre))" by auto
      ultimately show ?thesis using post by blast
    qed
  qed
qed

lemma parent_segment_iff:
  "''..'' \<in> set (path_components name) \<longleftrightarrow>
   (\<exists>pre post. name = pre @ ''..'' @ post \<and>
      (pre = [] \<or> is_path_separator (last pre)) \<and> (post = [] \<or> is_path_separator (hd post)))"
proof
  assume "''..'' \<in> set (path_components name)"
  then show "\<exists>pre post. name = pre @ ''..'' @ post \<and>
      (pre = [] \<or> is_path_separator (last pre)) \<and> (post = [] \<or> is_path_separator (hd post))"
    unfolding path_components_def using component_occurs [of "''..''" "[]" name] by simp
next
  assume "\<exists>pre post. name = pre @ ''..'' @ post \<and>
      (pre = [] \<or> is_path_separator (last pre)) \<and> (post = [] \<or> is_path_separator (hd post))"
  then obtain pre post where n: "name = pre @ ''..'' @ post"
    and pre: "pre = [] \<or> is_path_separator (last pre)"
    and post: "post = [] \<or> is_path_separator (hd post)" by blast
  have "\<forall>c \<in> set ''..''. \<not> is_path_separator c" by (simp add: is_path_separator_def)
  from component_between [OF this pre post] show "''..'' \<in> set (path_components name)"
    by (simp add: path_components_def n)
qed

lemma get_logs_separator:
  assumes "CHR ''/'' \<in> set fname \<or> CHR 0x5C \<in> set fname"
  shows "get_logs lib settings fname trm regex limit cs =
           Inl (HTTPException HTTP_400_BAD_REQUEST ERROR_INVALID_FILENAME)"
  using assms by (simp add: get_logs_def)

text \<open>
  C8. \<open>is_filename_valid\<close> is false for every name with \<open>..\<close> as a path component
  (the two dots standing between path separators or the ends of the name) and for
  every name that starts with \<open>/\<close>; it is true for every other name, so a path
  separator inside a name does not make it invalid. Names with a separator are
  rejected by the handler, which answers 400 for them. The predicate is a total
  function of the name alone.
\<close>

theorem is_filename_valid_rejects:
  "((\<exists>pre post. name = pre @ ''..'' @ post \<and>
       (pre = [] \<or> is_path_separator (last pre)) \<and>
       (post = [] \<or> is_path_separator (hd post))) \<longrightarrow> \<not> is_filename_valid name) \<and>
   (prefix ''/'' name \<longrightarrow> \<not> is_filename_valid name) \<and>
   (\<not> (\<exists>pre post. name = pre @ ''..'' @ post \<and>
       (pre = [] \<or> is_path_separator (last pre)) \<and>
       (post = [] \<or> is_path_separator (hd post))) \<and> \<not> prefix ''/'' name
      \<longrightarrow> is_filename_valid name) \<and>
   (CHR ''/'' \<in> set name \<or> CHR 0x5C \<in> set name \<longrightarrow>
      get_logs lib settings name trm regex limit cs =
        Inl (HTTPException HTTP_400_BAD_REQUEST ERROR_INVALID_FILENAME))"
  unfolding is_filename_valid_def parent_segment_iff
  using get_logs_separator [of name lib settings trm regex limit cs] by blast

theorem is_filename_valid_rejects_witness:
  "\<not> is_filename_valid ''foo/../bar'' \<and> \<not> is_filename_valid ''/etc/passwd'' \<and>
   is_filename_valid ''nginx/access.log'' \<and>
   get_logs literal_lib (memory_env []) ''nginx/access.log'' '''' None 50 True =
     Inl (HTTPException HTTP_400_BAD_REQUEST ERROR_INVALID_FILENAME)"
proof -
  have seg: "\<exists>pre post. ''foo/../bar'' = pre @ ''..'' @ post \<and>
       (pre = [] \<or> is_path_separator (last pre)) \<and> (post = [] \<or> is_path_separator (hd post))"
  proof (intro exI conjI)
    show "''foo/../bar'' = ''foo/'' @ ''..'' @ ''/bar''" by simp
    show "''foo/'' = [] \<or> is_path_separator (last ''foo/'')" by (simp add: is_path_separator_def)
    show "''/bar'' = [] \<or> is_path_separator (hd ''/bar'')" by (simp add: is_path_separator_def)
  qed
  have root: "prefix ''/'' ''/etc/passwd''" by simp
  have plain: "\<not> (\<exists>pre post. ''nginx/access.log'' = pre @ ''..'' @ post \<and>
       (pre = [] \<or> is_path_separator (last pre)) \<and> (post = [] \<or> is_path_separator (hd post))) \<and>
       \<not> prefix ''/'' ''nginx/access.log''"
    unfolding parent_segment_iff [symmetric]
    by (simp add: path_components_def is_path_separator_def)
  have sep: "CHR ''/'' \<in> set ''nginx/access.log'' \<or> CHR 0x5C \<in> set ''nginx/access.log''"
    by simp
  from is_filename_valid_rejects [of "''foo/../bar''"] seg
  have a: "\<not> is_filename_valid ''foo/../bar''" by blast
  from is_filename_valid_rejects [of "''/etc/passwd''"] root
  have b: "\<not> is_filename_valid ''/etc/passwd''" by blast
  from is_filename_valid_rejects [of "''nginx/access.log''" literal_lib "memory_env []" "''''" None 50 True]
    plain sep
  have c: "is_filename_valid ''nginx/access.log'' \<and>
     get_logs literal_lib (memory_env []) ''nginx/access.log'' '''' None 50 True =
       Inl (HTTPException HTTP_400_BAD_REQUEST ERROR_INVALID_FILENAME)" by blast
  from a b c show ?thesis by blast
qed

lemma apply_filtering_eq:
  "apply_filtering lib ls t regex cs = filter_lines lib ls (Some t) regex cs"
proof (cases "truthy regex")
  case True
  then obtain r where "regex = Some r" "r \<noteq> []" by (cases regex) auto
  then show ?thesis by (simp add: apply_filtering_def filter_lines_def)
next
  case False
  then have "regex = None \<or> regex = Some []" by (cases regex) auto
  then show ?thesis by (auto simp: apply_filtering_def filter_lines_def)
qed

text \<open>
  C9. The handler filters after the tail: for a request that passes the checks, on
  a file that exists and that the reader returns the lines \<open>ls\<close> for, the handler
  applies \<open>filter_lines\<close> to \<open>ls\<close> (with the request's term, regex and case flag); the
  response holds the list that \<open>filter_lines\<close> returns and its count is the length of
  that list, an exception that leaves \<open>filter_lines\<close> leaves the handler, and every
  response the handler returns has this form.
\<close>

theorem get_logs_filters_after_tail:
  "(is_filename_valid fname \<and> CHR ''/'' \<notin> set fname \<and> CHR 0x5C \<notin> set fname \<and>
    (t = [] \<or> is_search_term_valid t) \<and> is_limit_valid limit \<and>
    isfile settings (path_join settings (get_log_directory settings) fname) \<and>
    tail_async settings (path_join settings (get_log_directory settings) fname) limit = Inr ls
    \<longrightarrow> get_logs lib settings fname t regex limit cs =
          (case filter_lines lib ls (Some t) regex cs of
             Inl e \<Rightarrow> Inl (FilterException e)
           | Inr ls' \<Rightarrow> Inr \<lparr> lines = ls', count = length ls', filename = fname \<rparr>)) \<and>
   (\<forall>r. get_logs lib settings fname t regex limit cs = Inr r \<longrightarrow>
      (\<exists>ls'. tail_async settings (path_join settings (get_log_directory settings) fname) limit
               = Inr ls' \<and>
             filter_lines lib ls' (Some t) regex cs = Inr (lines r) \<and>
             count r = length (lines r)))"
proof -
  have fwd: "is_filename_valid fname \<and> CHR ''/'' \<notin> set fname \<and> CHR 0x5C \<notin> set fname \<and>
    (t = [] \<or> is_search_term_valid t) \<and> is_limit_valid limit \<and>
    isfile settings (path_join settings (get_log_directory settings) fname) \<and>
    tail_async settings (path_join settings (get_log_directory settings) fname) limit = Inr ls
    \<longrightarrow> get_logs lib settings fname t regex limit cs =
          (case filter_lines lib ls (Some t) regex cs of
             Inl e \<Rightarrow> Inl (FilterException e)
           | Inr ls' \<Rightarrow> Inr \<lparr> lines = ls', count = length ls', filename = fname \<rparr>)"
    by (auto simp: get_logs_def Let_def apply_filtering_eq)
  have bwd: "\<forall>r. get_logs lib settings fname t regex limit cs = Inr r \<longrightarrow>
      (\<exists>ls'. tail_async settings (path_join settings (get_log_directory settings) fname) limit
               = Inr ls' \<and>
             filter_lines lib ls' (Some t) regex cs = Inr (lines r) \<and>
             count r = length (lines r))"
    by (auto simp: get_logs_def Let_def apply_filtering_eq split: if_splits sum.splits)
  from fwd bwd show ?thesis by blast
qed

theorem get_logs_filters_after_tail_witness:
  "get_logs literal_lib
     (memory_env [(''/var/log/app.log'',
        join_lines [''error: old'', ''info: a'', ''error: new'', ''info: b''])])
     ''app.log'' ''error'' None 2 True
   = Inr \<lparr> lines = [''error: new''], count = 1, filename = ''app.log'' \<rparr> \<and>
   get_logs literal_lib
     (memory_env [(''/var/log/app.log'',
        join_lines [''error: old'', ''info: a'', ''error: new'', ''info: b''])])
     ''app.log'' [] (Some ''a{4294967296}'') 2 True
   = Inl (FilterException OverflowError)"
proof -
  let ?env = "memory_env [(''/var/log/app.log'',
        join_lines [''error: old'', ''info: a'', ''error: new'', ''info: b''])]"
  have path: "path_join ?env (get_log_directory ?env) ''app.log'' = ''/var/log/app.log''"
    by (simp add: memory_env_def)
  have valid: "is_filename_valid ''app.log'' \<and> CHR ''/'' \<notin> set ''app.log'' \<and>
               CHR 0x5C \<notin> set ''app.log'' \<and> (''error'' = [] \<or> is_search_term_valid ''error'') \<and>
               is_limit_valid 2"
    by (simp add: is_filename_valid_def path_components_def is_path_separator_def
        is_search_term_valid_def is_limit_valid_def)
  have valid': "is_filename_valid ''app.log'' \<and> CHR ''/'' \<notin> set ''app.log'' \<and>
               CHR 0x5C \<notin> set ''app.log'' \<and> (([] :: string) = [] \<or> is_search_term_valid []) \<and>
               is_limit_valid 2"
    by (simp add: is_filename_valid_def path_components_def is_path_separator_def
        is_limit_valid_def)
  have exists: "isfile ?env ''/var/log/app.log''"
    by (simp add: memory_env_def)
  have read: "tail_async ?env ''/var/log/app.log'' 2 = Inr [''error: new'', ''info: b'']"
    by (simp add: memory_env_def tail_def tail_chunked_def chunk_size_def scan_back.simps
        split_lines_def take_last_def newline_def)
  have flt: "filter_lines literal_lib [''error: new'', ''info: b''] (Some ''error'') None True
             = Inr [''error: new'']"
    by (simp add: filter_lines_def)
  have exc: "filter_lines literal_lib [''error: new'', ''info: b''] (Some [])
               (Some ''a{4294967296}'') True = Inl OverflowError"
    by (simp add: filter_lines_def literal_lib_def)
  from get_logs_filters_after_tail [of "''app.log''" "''error''" 2 ?env
      "[''error: new'', ''info: b'']" literal_lib None True] valid exists read
  have a: "get_logs literal_lib ?env ''app.log'' ''error'' None 2 True
           = Inr \<lparr> lines = [''error: new''], count = 1, filename = ''app.log'' \<rparr>"
    unfolding path flt by simp
  from get_logs_filters_after_tail [of "''app.log''" "[]" 2 ?env
      "[''error: new'', ''info: b'']" literal_lib "Some ''a{4294967296}''" True]
    valid' exists read
  have b: "get_logs literal_lib ?env ''app.log'' [] (Some ''a{4294967296}'') 2 True
           = Inl (FilterException OverflowError)"
    unfolding path exc by simp
  from a b show ?thesis by blast
qed

text \<open>
  C10. An empty \<open>regex\<close> counts as absent: \<open>filter_lines\<close> with \<open>regex = ""\<close> gives
  what it gives without a regex, namely the term filter (the input itself when the
  term is empty too), whatever the pattern compiler would say about the empty
  pattern. The handler does the same: with \<open>regex\<close> empty or missing it filters by
  the term and answers as it does without a regex.
\<close>

theorem empty_regex_is_absent:
  "filter_lines lib ls trm (Some []) cs = filter_lines lib ls trm None cs \<and>
   filter_lines lib ls trm (Some []) cs =
     Inr (if truthy trm then
            (if cs then filter (str_in (the trm)) ls
             else filter (\<lambda>l. str_in (str_lower lib (the trm)) (str_lower lib l)) ls)
          else ls) \<and>
   (\<not> truthy regex \<longrightarrow>
      apply_filtering lib' ls' t regex cs = filter_lines lib' ls' (Some t) None cs \<and>
      get_logs lib' settings fname t regex limit cs = get_logs lib' settings fname t None limit cs)"
proof -
  have a: "filter_lines lib ls trm (Some []) cs = filter_lines lib ls trm None cs"
    by (simp add: filter_lines_def)
  have b: "filter_lines lib ls trm (Some []) cs =
     Inr (if truthy trm then
            (if cs then filter (str_in (the trm)) ls
             else filter (\<lambda>l. str_in (str_lower lib (the trm)) (str_lower lib l)) ls)
          else ls)"
    by (simp add: filter_lines_def)
  have c: "\<not> truthy regex \<longrightarrow>
      apply_filtering lib' ls' t regex cs = filter_lines lib' ls' (Some t) None cs \<and>
      get_logs lib' settings fname t regex limit cs = get_logs lib' settings fname t None limit cs"
  proof
    assume "\<not> truthy regex"
    then have ap: "\<And>xs u. apply_filtering lib' xs u regex cs = apply_filtering lib' xs u None cs"
      by (simp add: apply_filtering_def)
    have "apply_filtering lib' ls' t None cs = filter_lines lib' ls' (Some t) None cs"
      by (rule apply_filtering_eq)
    moreover have "get_logs lib' settings fname t regex limit cs =
                   get_logs lib' settings fname t None limit cs"
      by (simp add: get_logs_def Let_def ap cong: sum.case_cong)
    ultimately show "apply_filtering lib' ls' t regex cs = filter_lines lib' ls' (Some t) None cs \<and>
      get_logs lib' settings fname t regex limit cs = get_logs lib' settings fname t None limit cs"
      by (simp add: ap)
  qed
  from a b c show ?thesis by blast
qed

theorem empty_regex_is_absent_witness:
  "filter_lines literal_lib [''error: x'', ''info: y''] (Some ''error'') (Some '''') True
     = Inr [''error: x''] \<and>
   filter_lines literal_lib [''error: x'', ''info: y''] None (Some '''') True
     = Inr [''error: x'', ''info: y''] \<and>
   get_logs literal_lib (memory_env [(''/var/log/syslog'', ''error: x\<newline>info: y'')])
     ''syslog'' ''error'' (Some '''') 50 True
   = Inr \<lparr> lines = [''error: x''], count = 1, filename = ''syslog'' \<rparr>"
proof -
  let ?ls = "[''error: x'', ''info: y'']"
  let ?env = "memory_env [(''/var/log/syslog'', ''error: x\<newline>info: y'')]"
  have f: "\<not> truthy (Some '''')" by simp
  note th = empty_regex_is_absent [of literal_lib ?ls _ True "Some ''''" literal_lib ?ls "''error''"
      ?env "''syslog''" 50]
  have a: "filter_lines literal_lib ?ls (Some ''error'') None True = Inr [''error: x'']"
    by (simp add: filter_lines_def)
  have b: "filter_lines literal_lib ?ls None None True = Inr ?ls"
    by (simp add: filter_lines_def)
  have c: "get_logs literal_lib ?env ''syslog'' ''error'' None 50 True
           = Inr \<lparr> lines = [''error: x''], count = 1, filename = ''syslog'' \<rparr>"
    by (simp add: get_logs_def apply_filtering_def filter_lines_def memory_env_def
        is_filename_valid_def path_components_def is_path_separator_def
        is_search_term_valid_def is_limit_valid_def
        tail_def tail_chunked_def chunk_size_def scan_back.simps
        split_lines_def take_last_def newline_def)
  from th [of "Some ''error''"] a
  have a': "filter_lines literal_lib ?ls (Some ''error'') (Some '''') True
             = Inr [''error: x'']"
    by simp
  from th [of None] b
  have b': "filter_lines literal_lib ?ls None (Some '''') True = Inr ?ls"
    by simp
  from th [of None] f c
  have c': "get_logs literal_lib ?env ''syslog'' ''error'' (Some '''') 50 True
           = Inr \<lparr> lines = [''error: x''], count = 1, filename = ''syslog'' \<rparr>"
    by simp
  from a' b' c' show ?thesis by blast
qed

end
